theory Spec2Isabelle
  imports Main "HOL-Library.Word"
begin

unbundle bit_operations_syntax

section \<open>Common types\<close>

type_synonym u8 = "8 word"
type_synonym u32 = "32 word"

text \<open>The result codes of the decoder (\<open>nj_result_t\<close>).\<close>

datatype nj_result =
    NJ_OK
  | NJ_NO_JPEG
  | NJ_UNSUPPORTED
  | NJ_OUT_OF_MEM
  | NJ_INTERNAL_ERR
  | NJ_SYNTAX_ERROR
  | NJ_FINISHED

section \<open>Frame analyzer: region statistics\<close>

text \<open>
  What the analyzer functions see of a capture once a buffer has been dequeued: either the
  buffer is empty (\<open>buffers[buf.index].length == 0\<close>), or \<open>njDecode\<close> has run on it and
  left a result code, the image returned by \<open>njGetImage\<close> and the value of
  \<open>njGetImageSize\<close>. The device calls (\<open>select\<close>, \<open>ioctl\<close>) are outside the model.
\<close>

datatype capture = EmptyBuffer | Decoded nj_result "u8 list" int

text \<open>
  What a function of the Python module hands back: \<open>Py_None\<close>, a \<open>NULL\<close> return with an
  exception set, or a value. \<open>Fault\<close> stands for an access outside the decoded image,
  which is undefined behaviour in C.
\<close>

datatype 'a pyresult = PyNone | PyExc | PyValue 'a | Fault

text \<open>\<open>abs(a - b)\<close> on two bytes promoted to \<open>int\<close>, added to an \<open>unsigned int\<close>.\<close>

definition absdiff :: "u8 \<Rightarrow> u8 \<Rightarrow> u32" where
  "absdiff a b = word_of_int \<bar>uint a - uint b\<bar>"

text \<open>
  The inner loop of \<open>measureRGBColor\<close>: \<open>n\<close> iterations from byte offset \<open>p\<close>, each
  adding one pixel to the three sums and advancing the pointer by 3.
\<close>

fun rgb_row :: "u8 list \<Rightarrow> nat \<Rightarrow> nat \<Rightarrow> u32 \<times> u32 \<times> u32 \<Rightarrow> (nat \<times> u32 \<times> u32 \<times> u32) option" where
  "rgb_row buf p 0 acc = Some (p, acc)"
| "rgb_row buf p (Suc n) (r, g, b) =
     (if p + 2 < length buf
      then rgb_row buf (p + 3) n (r + ucast (buf ! p), g + ucast (buf ! (p + 1)), b + ucast (buf ! (p + 2)))
      else None)"

text \<open>The outer loop: \<open>rows\<close> rows of \<open>cols\<close> iterations, the pointer moved by \<open>skip\<close> after each.\<close>

fun rgb_rows :: "u8 list \<Rightarrow> nat \<Rightarrow> nat \<Rightarrow> nat \<Rightarrow> nat \<Rightarrow> u32 \<times> u32 \<times> u32 \<Rightarrow> (u32 \<times> u32 \<times> u32) option" where
  "rgb_rows buf skip cols p 0 acc = Some acc"
| "rgb_rows buf skip cols p (Suc n) acc =
     (case rgb_row buf p cols acc of
        None \<Rightarrow> None
      | Some (p', acc') \<Rightarrow> rgb_rows buf skip cols (p' + skip) n acc')"

text \<open>
  \<open>ftrobopytools_measureRGBColor\<close> from the point where a buffer has been dequeued. All
  the rectangle arithmetic is \<open>unsigned int\<close>, so \<open>rwidth - 3\<close> wraps around for a
  rectangle narrower than 3 pixels.
\<close>

definition measureRGBColor ::
  "capture \<Rightarrow> u32 \<Rightarrow> u32 \<Rightarrow> u32 \<Rightarrow> u32 \<Rightarrow> u32 \<Rightarrow> u32 \<Rightarrow> u32 \<Rightarrow> (u32 \<times> u32 \<times> u32) pyresult" where
  "measureRGBColor cap imgwidth imgheight xtopleft ytopleft xbottomright ybottomright yuyv =
     (case cap of
        EmptyBuffer \<Rightarrow> PyNone
      | Decoded err img sz \<Rightarrow>
          if yuyv \<noteq> 0 then PyNone
          else if err \<noteq> NJ_OK then (if err = NJ_SYNTAX_ERROR then PyNone else PyExc)
          else
            let rwidth = xbottomright - xtopleft;
                rheight = ybottomright - ytopleft;
                p0 = unat ((imgwidth * ytopleft + xtopleft) * 3);
                pixelcount = rwidth * rheight
            in case rgb_rows img (unat ((imgwidth - rwidth) * 3)) (unat (rwidth - 3)) p0 (unat rheight) (0, 0, 0) of
                 None \<Rightarrow> Fault
               | Some (ave_red, ave_green, ave_blue) \<Rightarrow>
                   if pixelcount > 0
                   then PyValue (ave_red div pixelcount, ave_green div pixelcount, ave_blue div pixelcount)
                   else PyNone)"

text \<open>
  The inner loop of \<open>measureContrast\<close>: \<open>rgbp1\<close> walks a row and \<open>rgbp2\<close> the row below
  it; every iteration reads the pixel, its right neighbour, the pixel below and the one
  below to the right.
\<close>

fun contrast_row ::
  "u8 list \<Rightarrow> nat \<Rightarrow> nat \<Rightarrow> nat \<Rightarrow> u32 \<times> u32 \<times> u32 \<Rightarrow> (nat \<times> nat \<times> u32 \<times> u32 \<times> u32) option" where
  "contrast_row buf p1 p2 0 acc = Some (p1, p2, acc)"
| "contrast_row buf p1 p2 (Suc n) (r, g, b) =
     (if p1 + 5 < length buf \<and> p2 + 5 < length buf
      then contrast_row buf (p1 + 3) (p2 + 3) n
             (r + (absdiff (buf ! p1) (buf ! (p1 + 3)) + absdiff (buf ! p1) (buf ! p2)
                   + absdiff (buf ! p1) (buf ! (p2 + 3))),
              g + (absdiff (buf ! (p1 + 1)) (buf ! (p1 + 4)) + absdiff (buf ! (p1 + 1)) (buf ! (p2 + 1))
                   + absdiff (buf ! (p1 + 1)) (buf ! (p2 + 4))),
              b + (absdiff (buf ! (p1 + 2)) (buf ! (p1 + 5)) + absdiff (buf ! (p1 + 2)) (buf ! (p2 + 2))
                   + absdiff (buf ! (p1 + 2)) (buf ! (p2 + 5))))
      else None)"

fun contrast_rows ::
  "u8 list \<Rightarrow> nat \<Rightarrow> nat \<Rightarrow> nat \<Rightarrow> nat \<Rightarrow> nat \<Rightarrow> u32 \<times> u32 \<times> u32 \<Rightarrow> (u32 \<times> u32 \<times> u32) option" where
  "contrast_rows buf skip cols p1 p2 0 acc = Some acc"
| "contrast_rows buf skip cols p1 p2 (Suc n) acc =
     (case contrast_row buf p1 p2 cols acc of
        None \<Rightarrow> None
      | Some (p1', p2', acc') \<Rightarrow> contrast_rows buf skip cols (p1' + skip) (p2' + skip) n acc')"






text \<open>An image of \<open>n\<close> pixels, all of one colour.\<close>

definition solid :: "nat \<Rightarrow> u8 \<Rightarrow> u8 \<Rightarrow> u8 \<Rightarrow> u8 list" where
  "solid n r g b = concat (replicate n [r, g, b])"


text \<open>
  What the loops of \<open>measureContrast\<close> do, said without the loops. The term of the pixel
  \<open>q\<close> (counted from the start of the frame, \<open>W\<close> pixels to a row) in channel \<open>c\<close>:
  its differences from the pixel to its right, the one below and the one below to the
  right. The pixels the pointer walk visits: \<open>n\<close> rows of \<open>cols\<close> pixels, the first
  from \<open>q\<close>, each row starting \<open>step\<close> pixels after the start of the one before. The
  sum of the terms over a list of pixels. And a frame of 24 pixels whose bytes count up
  from 0.
\<close>

definition contrast_term :: "u8 list \<Rightarrow> nat \<Rightarrow> nat \<Rightarrow> nat \<Rightarrow> u32" where
  "contrast_term img W q c =
     absdiff (img ! (3 * q + c)) (img ! (3 * (q + 1) + c))
     + absdiff (img ! (3 * q + c)) (img ! (3 * (q + W) + c))
     + absdiff (img ! (3 * q + c)) (img ! (3 * (q + W + 1) + c))"


definition contrast_channel :: "u8 list \<Rightarrow> nat \<Rightarrow> nat list \<Rightarrow> nat \<Rightarrow> u32" where
  "contrast_channel img W qs c = (\<Sum>q \<leftarrow> qs. contrast_term img W q c)"





section \<open>Frame analyzer: line detection\<close>

text \<open>
  The scan loop of \<open>ftrobopytools_detectLines\<close> over the line buffer \<open>linebuf\<close>, which
  the function has filled from the decoded row beforehand. The loop reads nothing but
  \<open>linebuf\<close>; the marker it draws into the frame for every detected line is never read
  back and is not part of the model.
\<close>

record dl_params =
  dl_xmin :: u32
  dl_numlines :: u32
  dl_threshold :: u32
  dl_minwidth :: u32
  dl_maxwidth :: u32
  dl_pixelcount :: u32

text \<open>One detected line: \<open>pos\<close>, \<open>width\<close>, \<open>red\<close>, \<open>green\<close>, \<open>blue\<close>.\<close>

type_synonym dl_line = "u32 \<times> u32 \<times> u32 \<times> u32 \<times> u32"

record dl_state =
  dl_count :: u32
  dl_ave_red :: u32
  dl_ave_green :: u32
  dl_ave_blue :: u32
  dl_grad_rgb :: u32
  dl_lines :: "dl_line list"

definition MAXLINES :: nat where
  "MAXLINES = 5"

text \<open>
  One iteration of the loop at index \<open>k\<close>. \<open>None\<close> is undefined behaviour: a read past
  the end of \<open>linebuf\<close>, or a division by a zero \<open>count\<close>.
\<close>

definition dl_step :: "dl_params \<Rightarrow> u8 list \<Rightarrow> nat \<Rightarrow> dl_state \<Rightarrow> dl_state option" where
  "dl_step prm linebuf k st =
     (let lidx = unat (3 * of_nat k :: u32) in
      if length linebuf \<le> lidx + 5 then None
      else
        let grad_r = absdiff (linebuf ! lidx) (linebuf ! (lidx + 3));
            grad_g = absdiff (linebuf ! (lidx + 1)) (linebuf ! (lidx + 4));
            grad_b = absdiff (linebuf ! (lidx + 2)) (linebuf ! (lidx + 5));
            last_grad_rgb = dl_grad_rgb st;
            grad_rgb = grad_r + grad_g + grad_b;
            count = dl_count st
        in
          if grad_rgb \<ge> dl_threshold prm \<and> last_grad_rgb < dl_threshold prm \<and> count = 0
          then Some (st\<lparr>dl_ave_red := ucast (linebuf ! lidx),
                         dl_ave_green := ucast (linebuf ! (lidx + 1)),
                         dl_ave_blue := ucast (linebuf ! (lidx + 2)),
                         dl_count := 1, dl_grad_rgb := 0\<rparr>)
          else if grad_rgb < dl_threshold prm \<and> last_grad_rgb \<ge> dl_threshold prm
                  \<and> count \<ge> dl_minwidth prm \<and> count \<le> dl_maxwidth prm
          then (if count = 0 then None
                else Some (st\<lparr>dl_lines := dl_lines st @
                                 [(dl_xmin prm + of_nat k - count div 2, count,
                                   dl_ave_red st div count, dl_ave_green st div count,
                                   dl_ave_blue st div count)],
                               dl_count := 0, dl_grad_rgb := 0\<rparr>))
          else if count > 0
          then Some (st\<lparr>dl_ave_red := dl_ave_red st + ucast (linebuf ! lidx),
                         dl_ave_green := dl_ave_green st + ucast (linebuf ! (lidx + 1)),
                         dl_ave_blue := dl_ave_blue st + ucast (linebuf ! (lidx + 2)),
                         dl_count := count + 1, dl_grad_rgb := grad_rgb\<rparr>)
          else Some (st\<lparr>dl_grad_rgb := 0\<rparr>))"

text \<open>
  \<open>while (l < numlines && l < MAXLINES && k < pixelcount - 2)\<close>, with \<open>l\<close> the number of
  lines found so far. \<open>k\<close> stays below \<open>pixelcount - 2\<close> and so never wraps: it is a
  natural number here.
\<close>

function dl_loop :: "dl_params \<Rightarrow> u8 list \<Rightarrow> nat \<Rightarrow> dl_state \<Rightarrow> dl_state option" where
  "dl_loop prm linebuf k st =
     (if length (dl_lines st) < unat (dl_numlines prm) \<and> length (dl_lines st) < MAXLINES
         \<and> k < unat (dl_pixelcount prm - 2)
      then (case dl_step prm linebuf k st of
              None \<Rightarrow> None
            | Some st' \<Rightarrow> dl_loop prm linebuf (k + 1) st')
      else Some st)"
  by pat_completeness auto
termination
  by (relation "measure (\<lambda>(prm, linebuf, k, st). unat (dl_pixelcount prm - 2) - k)") auto

declare dl_loop.simps [simp del]

text \<open>
  The loop from its initial state, and the value built from the lines found: \<open>res\<close>
  stays \<open>Py_None\<close> when there is none.
\<close>

definition detectLines_scan :: "dl_params \<Rightarrow> u8 list \<Rightarrow> dl_line list pyresult" where
  "detectLines_scan prm linebuf =
     (case dl_loop prm linebuf 0
             \<lparr>dl_count = 0, dl_ave_red = 0, dl_ave_green = 0, dl_ave_blue = 0,
              dl_grad_rgb = 0, dl_lines = []\<rparr> of
        None \<Rightarrow> Fault
      | Some st \<Rightarrow> (if dl_lines st = [] then PyNone else PyValue (dl_lines st)))"

text \<open>
  The vocabulary of the claim about the scan. The gradient between the pixels \<open>k\<close> and
  \<open>k + 1\<close> of the line buffer; the sum of channel \<open>c\<close> over the \<open>w\<close> pixels from \<open>s\<close>.
\<close>

definition dl_grad :: "u8 list \<Rightarrow> nat \<Rightarrow> u32" where
  "dl_grad lb k =
     absdiff (lb ! (3 * k)) (lb ! (3 * k + 3)) + absdiff (lb ! (3 * k + 1)) (lb ! (3 * k + 4))
     + absdiff (lb ! (3 * k + 2)) (lb ! (3 * k + 5))"

fun chan_sum :: "u8 list \<Rightarrow> nat \<Rightarrow> nat \<Rightarrow> nat \<Rightarrow> u32" where
  "chan_sum lb c s 0 = 0"
| "chan_sum lb c s (Suc w) = chan_sum lb c s w + ucast (lb ! (3 * (s + w) + c))"

text \<open>
  A segment can open at \<open>j\<close>: the gradient there reaches the threshold (coming from the
  value 0 the loop keeps while no segment is open). A segment opened at \<open>s\<close> can close at
  \<open>j\<close>: the gradient falls below the threshold there, having reached it at \<open>j - 1\<close>, and
  the \<open>j - s\<close> pixels accumulated lie within the width bounds.
\<close>

definition dl_opens :: "dl_params \<Rightarrow> u8 list \<Rightarrow> nat \<Rightarrow> bool" where
  "dl_opens prm lb j = (dl_threshold prm \<le> dl_grad lb j \<and> 0 < dl_threshold prm)"

definition dl_closes :: "dl_params \<Rightarrow> u8 list \<Rightarrow> nat \<Rightarrow> nat \<Rightarrow> bool" where
  "dl_closes prm lb s j =
     (dl_grad lb j < dl_threshold prm \<and> dl_threshold prm \<le> dl_grad lb (j - 1)
      \<and> dl_minwidth prm \<le> of_nat (j - s) \<and> of_nat (j - s) \<le> dl_maxwidth prm)"

text \<open>
  The line \<open>t\<close> is the segment that opens at \<open>s\<close> and has width \<open>w\<close>, when the scan is
  idle from index \<open>lo\<close>: no segment can open between \<open>lo\<close> and \<open>s\<close>, one opens at \<open>s\<close>,
  \<open>s + w\<close> is the first index, two or more past \<open>s\<close>, at which it can close, that
  index is one the loop reaches (it runs while \<open>k < pixelcount - 2\<close>), and \<open>t\<close>
  carries the position \<open>xmin + (s + w) - w / 2\<close>, the width and the channel averages.
\<close>

definition seg_ok :: "dl_params \<Rightarrow> u8 list \<Rightarrow> nat \<Rightarrow> nat \<Rightarrow> nat \<Rightarrow> dl_line \<Rightarrow> bool" where
  "seg_ok prm lb lo s w t =
     (lo \<le> s \<and> (\<forall>j \<in> {lo ..< s}. \<not> dl_opens prm lb j) \<and> dl_opens prm lb s
      \<and> 2 \<le> w \<and> s + w < unat (dl_pixelcount prm - 2)
      \<and> dl_closes prm lb s (s + w) \<and> (\<forall>j \<in> {s + 2 ..< s + w}. \<not> dl_closes prm lb s j)
      \<and> t = (dl_xmin prm + of_nat (s + w) - of_nat w div 2, of_nat w,
             chan_sum lb 0 s w div of_nat w, chan_sum lb 1 s w div of_nat w,
             chan_sum lb 2 s w div of_nat w))"

text \<open>
  \<open>dl_chain prm lb lo bs ts hi\<close>: scanning from index \<open>lo\<close> with no segment open, the
  lines \<open>ts\<close> are the segments with the starts and widths \<open>bs\<close>, in scan order, and the
  scan is idle again from index \<open>hi\<close>.
\<close>

fun dl_chain :: "dl_params \<Rightarrow> u8 list \<Rightarrow> nat \<Rightarrow> (nat \<times> nat) list \<Rightarrow> dl_line list \<Rightarrow> nat \<Rightarrow> bool" where
  "dl_chain prm lb lo [] [] hi = (hi = lo)"
| "dl_chain prm lb lo ((s, w) # bs) (t # ts) hi = (seg_ok prm lb lo s w t \<and> dl_chain prm lb (s + w + 1) bs ts hi)"
| "dl_chain prm lb lo _ _ hi = False"

text \<open>
  What is left between \<open>lo\<close> and the end \<open>n\<close> of the scan when it stops for lack of
  pixels: no segment can open there, or one opens and cannot close before \<open>n\<close>.
\<close>

definition dl_tail :: "dl_params \<Rightarrow> u8 list \<Rightarrow> nat \<Rightarrow> nat \<Rightarrow> bool" where
  "dl_tail prm lb lo n =
     ((\<forall>j \<in> {lo ..< n}. \<not> dl_opens prm lb j)
      \<or> (\<exists>s \<in> {lo ..< n}. (\<forall>j \<in> {lo ..< s}. \<not> dl_opens prm lb j) \<and> dl_opens prm lb s
                          \<and> (\<forall>j \<in> {s + 2 ..< n}. \<not> dl_closes prm lb s j)))"

text \<open>
  The lines \<open>ts\<close> are what a scan of the window finds: at most \<open>min numlines MAXLINES\<close>
  of them, each the next segment after the one before, and, when there are fewer than
  that, nothing more to be found before the end of the window.
\<close>

definition dl_spec :: "dl_params \<Rightarrow> u8 list \<Rightarrow> dl_line list \<Rightarrow> bool" where
  "dl_spec prm lb ts =
     (\<exists>bs hi. length ts \<le> min (unat (dl_numlines prm)) MAXLINES
        \<and> dl_chain prm lb 0 bs ts hi
        \<and> (length ts < min (unat (dl_numlines prm)) MAXLINES
             \<longrightarrow> dl_tail prm lb hi (unat (dl_pixelcount prm - 2))))"

text \<open>The invariant of the scan loop before iteration \<open>k\<close>.\<close>

definition dl_inv :: "dl_params \<Rightarrow> u8 list \<Rightarrow> nat \<Rightarrow> dl_state \<Rightarrow> bool" where
  "dl_inv prm lb k st =
     (\<exists>bs lo. dl_chain prm lb 0 bs (dl_lines st) lo \<and> lo \<le> k \<and>
        (if dl_count st = 0
         then dl_grad_rgb st = 0 \<and> (\<forall>j \<in> {lo ..< k}. \<not> dl_opens prm lb j)
         else \<exists>s. lo \<le> s \<and> s < k \<and> dl_count st = of_nat (k - s)
                \<and> (\<forall>j \<in> {lo ..< s}. \<not> dl_opens prm lb j) \<and> dl_opens prm lb s
                \<and> dl_ave_red st = chan_sum lb 0 s (k - s)
                \<and> dl_ave_green st = chan_sum lb 1 s (k - s)
                \<and> dl_ave_blue st = chan_sum lb 2 s (k - s)
                \<and> dl_grad_rgb st = (if k - s = 1 then 0 else dl_grad lb (k - 1))
                \<and> (\<forall>j \<in> {s + 2 ..< k}. \<not> dl_closes prm lb s j)))"

text \<open>
  A scan line of 20 pixels, black but for a white stripe over the pixels 5 to 14, and the
  parameters of a scan over all of it with threshold 100 and widths from 5 to 20.
\<close>

definition stripe_line :: "u8 list" where
  "stripe_line = solid 5 0 0 0 @ solid 10 255 255 255 @ solid 5 0 0 0"

definition stripe_params :: dl_params where
  "stripe_params = \<lparr>dl_xmin = 0, dl_numlines = 5, dl_threshold = 100, dl_minwidth = 5,
                     dl_maxwidth = 20, dl_pixelcount = 20\<rparr>"

section \<open>Region colour (claim C1)\<close>

text \<open>
  C1. The claim: a rectangle wholly filled with the pixel value (200,100,50) yields exactly
  (200,100,50). The code sums only \<open>rwidth - 3\<close> pixels of each row and divides by
  \<open>rwidth * rheight\<close>: on a frame of one row of ten such pixels, with the rectangle the
  whole frame, it returns (140,70,35).
\<close>

theorem measureRGBColor_solid_row:
  "measureRGBColor (Decoded NJ_OK (solid 10 200 100 50) 30) 10 1 0 0 10 1 0 = PyValue (140, 70, 35)"
  by code_simp


section \<open>Region contrast (claim C2)\<close>


lemma absdiff_same [simp]: "absdiff a a = 0"
  by (simp add: absdiff_def)

lemma contrast_row_ok:
  "p1 \<le> p2 \<Longrightarrow> p2 + 3 * n + 3 \<le> length buf \<Longrightarrow>
   \<exists>acc'. contrast_row buf p1 p2 n acc = Some (p1 + 3 * n, p2 + 3 * n, acc')"
proof (induction n arbitrary: p1 p2 acc)
  case 0 then show ?case by (cases acc) auto
next
  case (Suc n)
  obtain r g b where acc: "acc = (r, g, b)" by (cases acc) auto
  have ib: "p1 + 5 < length buf" "p2 + 5 < length buf" using Suc.prems by simp_all
  from Suc.IH [of "p1 + 3" "p2 + 3"] Suc.prems
  have "\<And>a. \<exists>acc'. contrast_row buf (p1 + 3) (p2 + 3) n a = Some (p1 + 3 + 3 * n, p2 + 3 + 3 * n, acc')"
    by simp
  then show ?case using ib by (simp add: acc add.assoc add.commute add.left_commute)
qed


lemma contrast_rows_ok:
  "p1 \<le> p2 \<Longrightarrow> (0 < n \<longrightarrow> p2 + (n - 1) * (3 * cols + skip) + 3 * cols + 3 \<le> length buf) \<Longrightarrow>
   \<exists>acc'. contrast_rows buf skip cols p1 p2 n acc = Some acc'"
proof (induction n arbitrary: p1 p2 acc)
  case 0 then show ?case by (cases acc) auto
next
  case (Suc n)
  have b: "p2 + n * (3 * cols + skip) + 3 * cols + 3 \<le> length buf" using Suc.prems by simp
  then have "p2 + 3 * cols + 3 \<le> length buf" by simp
  from contrast_row_ok [OF Suc.prems(1) this]
  obtain a where a: "contrast_row buf p1 p2 cols acc = Some (p1 + 3 * cols, p2 + 3 * cols, a)" by blast
  have "\<exists>acc'. contrast_rows buf skip cols (p1 + 3 * cols + skip) (p2 + 3 * cols + skip) n a = Some acc'"
  proof (rule Suc.IH)
    show "p1 + 3 * cols + skip \<le> p2 + 3 * cols + skip" using Suc.prems(1) by simp
    show "0 < n \<longrightarrow> p2 + 3 * cols + skip + (n - 1) * (3 * cols + skip) + 3 * cols + 3 \<le> length buf"
    proof
      assume "0 < n"
      then obtain m where m: "n = Suc m" by (cases n) auto
      show "p2 + 3 * cols + skip + (n - 1) * (3 * cols + skip) + 3 * cols + 3 \<le> length buf"
        using b by (simp add: m algebra_simps)
    qed
  qed
  then show ?case by (simp add: a)
qed



lemma length_solid [simp]: "length (solid n r g b) = 3 * n"
  by (induction n) (simp_all add: solid_def)





lemma unat_of_nat32: "n < 2 ^ 32 \<Longrightarrow> unat (of_nat n :: u32) = n"
  by (simp add: unat_of_nat)





lemma contrast_channel_Nil [simp]: "contrast_channel img W [] c = 0"
  by (simp add: contrast_channel_def)

lemma contrast_channel_append [simp]:
  "contrast_channel img W (xs @ ys) c = contrast_channel img W xs c + contrast_channel img W ys c"
  by (simp add: contrast_channel_def)






section \<open>Line detection (claim C4)\<close>

lemma dl_chain_append:
  "dl_chain prm lb lo bs ts mid \<Longrightarrow> seg_ok prm lb mid s w t \<Longrightarrow>
   dl_chain prm lb lo (bs @ [(s, w)]) (ts @ [t]) (s + w + 1)"
  by (induction prm lb lo bs ts mid rule: dl_chain.induct) simp_all

lemma dl_chain_length: "dl_chain prm lb lo bs ts hi \<Longrightarrow> length bs = length ts"
  by (induction prm lb lo bs ts hi rule: dl_chain.induct) simp_all

lemma dl_step_grad:
  assumes "3 * k + 5 < length lb" "length lb < 2 ^ 32"
  shows "dl_step prm lb k st =
     (if dl_grad lb k \<ge> dl_threshold prm \<and> dl_grad_rgb st < dl_threshold prm \<and> dl_count st = 0
      then Some (st\<lparr>dl_ave_red := ucast (lb ! (3 * k)),
                     dl_ave_green := ucast (lb ! (3 * k + 1)),
                     dl_ave_blue := ucast (lb ! (3 * k + 2)),
                     dl_count := 1, dl_grad_rgb := 0\<rparr>)
      else if dl_grad lb k < dl_threshold prm \<and> dl_grad_rgb st \<ge> dl_threshold prm
              \<and> dl_count st \<ge> dl_minwidth prm \<and> dl_count st \<le> dl_maxwidth prm
      then (if dl_count st = 0 then None
            else Some (st\<lparr>dl_lines := dl_lines st @
                             [(dl_xmin prm + of_nat k - dl_count st div 2, dl_count st,
                               dl_ave_red st div dl_count st, dl_ave_green st div dl_count st,
                               dl_ave_blue st div dl_count st)],
                           dl_count := 0, dl_grad_rgb := 0\<rparr>))
      else if dl_count st > 0
      then Some (st\<lparr>dl_ave_red := dl_ave_red st + ucast (lb ! (3 * k)),
                     dl_ave_green := dl_ave_green st + ucast (lb ! (3 * k + 1)),
                     dl_ave_blue := dl_ave_blue st + ucast (lb ! (3 * k + 2)),
                     dl_count := dl_count st + 1, dl_grad_rgb := dl_grad lb k\<rparr>)
      else Some (st\<lparr>dl_grad_rgb := 0\<rparr>))"
proof -
  have "3 * k < 2 ^ 32" using assms by simp
  then have l: "unat (3 * of_nat k :: u32) = 3 * k"
    using unat_of_nat32 [of "3 * k"] by simp
  have nb: "\<not> length lb \<le> 3 * k + 5" using assms by simp
  show ?thesis
    unfolding dl_step_def l Let_def dl_grad_def
    by (simp only: nb if_False add.assoc)
qed


lemma dl_step_inv:
  assumes inv: "dl_inv prm lb k st" and b: "3 * k + 5 < length lb" "length lb < 2 ^ 32"
    and kn: "k < unat (dl_pixelcount prm - 2)"
  shows "\<exists>st'. dl_step prm lb k st = Some st' \<and> dl_inv prm lb (k + 1) st'
           \<and> length (dl_lines st') \<le> length (dl_lines st) + 1"
proof -
  from inv obtain bs lo where ch: "dl_chain prm lb 0 bs (dl_lines st) lo" and lo: "lo \<le> k"
    and body: "if dl_count st = 0
         then dl_grad_rgb st = 0 \<and> (\<forall>j \<in> {lo ..< k}. \<not> dl_opens prm lb j)
         else \<exists>s. lo \<le> s \<and> s < k \<and> dl_count st = of_nat (k - s)
                \<and> (\<forall>j \<in> {lo ..< s}. \<not> dl_opens prm lb j) \<and> dl_opens prm lb s
                \<and> dl_ave_red st = chan_sum lb 0 s (k - s)
                \<and> dl_ave_green st = chan_sum lb 1 s (k - s)
                \<and> dl_ave_blue st = chan_sum lb 2 s (k - s)
                \<and> dl_grad_rgb st = (if k - s = 1 then 0 else dl_grad lb (k - 1))
                \<and> (\<forall>j \<in> {s + 2 ..< k}. \<not> dl_closes prm lb s j)"
    unfolding dl_inv_def by blast
  note step = dl_step_grad [OF b, of prm st]
  show ?thesis
  proof (cases "dl_count st = 0")
    case True
    with body have g0: "dl_grad_rgb st = 0" and gap: "\<forall>j \<in> {lo ..< k}. \<not> dl_opens prm lb j" by auto
    show ?thesis
    proof (cases "dl_opens prm lb k")
      case op: True
      then have c1: "dl_grad lb k \<ge> dl_threshold prm \<and> dl_grad_rgb st < dl_threshold prm \<and> dl_count st = 0"
        using True g0 by (simp add: dl_opens_def)
      define st' where "st' = st\<lparr>dl_ave_red := ucast (lb ! (3 * k)),
                     dl_ave_green := ucast (lb ! (3 * k + 1)),
                     dl_ave_blue := ucast (lb ! (3 * k + 2)),
                     dl_count := 1, dl_grad_rgb := 0\<rparr>"
      have s: "dl_step prm lb k st = Some st'" unfolding step st'_def by (simp only: c1 simp_thms if_True)
      have "dl_inv prm lb (k + 1) st'"
        unfolding dl_inv_def
        apply (rule exI [of _ bs], rule exI [of _ lo])
        using ch lo gap op
        apply (simp add: st'_def)
        apply (rule exI [of _ k])
        apply simp
        done
      then show ?thesis using s by (simp add: st'_def)
    next
      case nop: False
      have c1: "\<not> (dl_grad lb k \<ge> dl_threshold prm \<and> dl_grad_rgb st < dl_threshold prm \<and> dl_count st = 0)"
        using nop g0 by (auto simp: dl_opens_def)
      have c2: "\<not> (dl_grad lb k < dl_threshold prm \<and> dl_grad_rgb st \<ge> dl_threshold prm
              \<and> dl_count st \<ge> dl_minwidth prm \<and> dl_count st \<le> dl_maxwidth prm)"
        using g0 by auto
      have s: "dl_step prm lb k st = Some (st\<lparr>dl_grad_rgb := 0\<rparr>)"
        unfolding step using nop g0 True by (auto simp: dl_opens_def)
      have "dl_inv prm lb (k + 1) (st\<lparr>dl_grad_rgb := 0\<rparr>)"
        unfolding dl_inv_def
        apply (rule exI [of _ bs], rule exI [of _ lo])
        using ch lo gap nop True
        apply (auto simp: less_Suc_eq)
        done
      then show ?thesis using s by simp
    qed
  next
    case False
    with body obtain s where s: "lo \<le> s" "s < k" and cnt: "dl_count st = of_nat (k - s)"
      and gap: "\<forall>j \<in> {lo ..< s}. \<not> dl_opens prm lb j" and op: "dl_opens prm lb s"
      and ar: "dl_ave_red st = chan_sum lb 0 s (k - s)"
      and ag: "dl_ave_green st = chan_sum lb 1 s (k - s)"
      and ab: "dl_ave_blue st = chan_sum lb 2 s (k - s)"
      and gr: "dl_grad_rgb st = (if k - s = 1 then 0 else dl_grad lb (k - 1))"
      and ncl: "\<forall>j \<in> {s + 2 ..< k}. \<not> dl_closes prm lb s j"
      by auto
    have c1: "\<not> (dl_grad lb k \<ge> dl_threshold prm \<and> dl_grad_rgb st < dl_threshold prm \<and> dl_count st = 0)"
      using False by simp
    show ?thesis
    proof (cases "dl_grad lb k < dl_threshold prm \<and> dl_grad_rgb st \<ge> dl_threshold prm
              \<and> dl_count st \<ge> dl_minwidth prm \<and> dl_count st \<le> dl_maxwidth prm")
      case c2: True
      have w2: "k - s \<noteq> 1"
      proof
        assume "k - s = 1"
        then have "dl_grad_rgb st = 0" using gr by simp
        with c2 have "dl_threshold prm = 0" by simp
        with c2 show False by simp
      qed
      then have gk: "dl_grad_rgb st = dl_grad lb (k - 1)" using gr by simp
      have w: "2 \<le> k - s" "s + (k - s) = k" using s w2 by auto
      define t where "t = (dl_xmin prm + of_nat k - dl_count st div 2, dl_count st,
                               dl_ave_red st div dl_count st, dl_ave_green st div dl_count st,
                               dl_ave_blue st div dl_count st)"
      have cl: "dl_closes prm lb s k"
        using c2 gk cnt by (simp add: dl_closes_def)
      have sok: "seg_ok prm lb lo s (k - s) t"
        unfolding seg_ok_def w
        using s gap op w(1) cl ncl kn by (simp add: t_def cnt ar ag ab)
      have ch': "dl_chain prm lb 0 (bs @ [(s, k - s)]) (dl_lines st @ [t]) (k + 1)"
        using dl_chain_append [OF ch sok] w(2) by simp
      define st' where "st' = st\<lparr>dl_lines := dl_lines st @ [t], dl_count := 0, dl_grad_rgb := 0\<rparr>"
      have st: "dl_step prm lb k st = Some st'"
        unfolding step st'_def t_def by (simp only: c1 c2 False simp_thms if_True if_False)
      have "dl_inv prm lb (k + 1) st'"
        unfolding dl_inv_def
        apply (rule exI [of _ "bs @ [(s, k - s)]"], rule exI [of _ "k + 1"])
        using ch' by (simp add: st'_def)
      then show ?thesis using st by (simp add: st'_def)
    next
      case c2: False
      have pos: "dl_count st > 0" using False by (simp add: word_greater_zero_iff)
      define st' where "st' = st\<lparr>dl_ave_red := dl_ave_red st + ucast (lb ! (3 * k)),
                     dl_ave_green := dl_ave_green st + ucast (lb ! (3 * k + 1)),
                     dl_ave_blue := dl_ave_blue st + ucast (lb ! (3 * k + 2)),
                     dl_count := dl_count st + 1, dl_grad_rgb := dl_grad lb k\<rparr>"
      have st: "dl_step prm lb k st = Some st'"
        unfolding step st'_def by (simp only: c1 c2 pos simp_thms if_True if_False)
      have ks: "k + 1 - s = Suc (k - s)" "s + (k - s) = k" "Suc k - s = Suc (k - s)" using s by auto
      have cnt': "dl_count st' = of_nat (k + 1 - s)" unfolding ks(1) by (simp add: st'_def cnt)
      have nz: "dl_count st' \<noteq> 0"
      proof -
        have "k + 1 - s < 2 ^ 32" using b by simp
        then have "unat (of_nat (k + 1 - s) :: u32) = k + 1 - s" by (rule unat_of_nat32)
        then have "unat (dl_count st') \<noteq> 0" using ks cnt' by simp
        then show ?thesis by (simp add: unat_eq_0)
      qed
      have ncl': "\<forall>j \<in> {s + 2 ..< k + 1}. \<not> dl_closes prm lb s j"
      proof
        fix j assume j: "j \<in> {s + 2 ..< k + 1}"
        show "\<not> dl_closes prm lb s j"
        proof (cases "j = k")
          case True
          then have "k - s \<noteq> 1" using j by auto
          then have "dl_grad_rgb st = dl_grad lb (k - 1)" using gr by simp
          then show ?thesis using c2 True cnt by (simp add: dl_closes_def)
        next
          case False
          then show ?thesis using j ncl by auto
        qed
      qed
      have "dl_inv prm lb (k + 1) st'"
        unfolding dl_inv_def
        apply (rule exI [of _ bs], rule exI [of _ lo])
        apply (simp only: nz if_False)
        apply (intro conjI)
        subgoal using ch by (simp add: st'_def)
        subgoal using lo by simp
        apply (rule exI [of _ s])
        using s gap op ncl' cnt'
        apply (simp add: ks)
        apply (simp add: st'_def ar ag ab ks)
        done
      then show ?thesis using st by (simp add: st'_def)
    qed
  qed
qed


lemma dl_loop_inv:
  assumes "dl_inv prm lb k st" "k \<le> unat (dl_pixelcount prm - 2)"
    and "\<forall>j < unat (dl_pixelcount prm - 2). 3 * j + 5 < length lb" "length lb < 2 ^ 32"
    and "length (dl_lines st) \<le> min (unat (dl_numlines prm)) MAXLINES"
  shows "\<exists>st' bs hi. dl_loop prm lb k st = Some st' \<and> dl_chain prm lb 0 bs (dl_lines st') hi
           \<and> length (dl_lines st') \<le> min (unat (dl_numlines prm)) MAXLINES
           \<and> (length (dl_lines st') < min (unat (dl_numlines prm)) MAXLINES
                \<longrightarrow> dl_tail prm lb hi (unat (dl_pixelcount prm - 2)))"
  using assms
proof (induction prm lb k st rule: dl_loop.induct)
  case (1 prm lb k st)
  let ?n = "unat (dl_pixelcount prm - 2)"
  let ?cap = "min (unat (dl_numlines prm)) MAXLINES"
  show ?case
  proof (cases "length (dl_lines st) < unat (dl_numlines prm) \<and> length (dl_lines st) < MAXLINES \<and> k < ?n")
    case True
    then have b: "3 * k + 5 < length lb" using "1.prems"(3) by simp
    have kn: "k < ?n" using True by simp
    from dl_step_inv [OF "1.prems"(1) b "1.prems"(4) kn]
    obtain st1 where st1: "dl_step prm lb k st = Some st1" and inv1: "dl_inv prm lb (k + 1) st1"
      and len1: "length (dl_lines st1) \<le> length (dl_lines st) + 1" by blast
    have cap1: "length (dl_lines st1) \<le> ?cap" using len1 True by simp
    have k1: "k + 1 \<le> ?n" using True by simp
    from "1.IH" [OF True st1 inv1 k1 "1.prems"(3) "1.prems"(4) cap1]
    obtain st' bs hi where "dl_loop prm lb (k + 1) st1 = Some st'" "dl_chain prm lb 0 bs (dl_lines st') hi"
      "length (dl_lines st') \<le> ?cap" "length (dl_lines st') < ?cap \<longrightarrow> dl_tail prm lb hi ?n"
      by blast
    moreover have "dl_loop prm lb k st = dl_loop prm lb (k + 1) st1"
      by (subst dl_loop.simps) (simp only: True if_True st1 option.case simp_thms)
    ultimately show ?thesis by (simp only:) blast
  next
    case False
    then have out: "dl_loop prm lb k st = Some st" by (subst dl_loop.simps) (simp only: if_False simp_thms)
    from "1.prems"(1) obtain bs lo where ch: "dl_chain prm lb 0 bs (dl_lines st) lo" and lo: "lo \<le> k"
      and body: "if dl_count st = 0
         then dl_grad_rgb st = 0 \<and> (\<forall>j \<in> {lo ..< k}. \<not> dl_opens prm lb j)
         else \<exists>s. lo \<le> s \<and> s < k \<and> dl_count st = of_nat (k - s)
                \<and> (\<forall>j \<in> {lo ..< s}. \<not> dl_opens prm lb j) \<and> dl_opens prm lb s
                \<and> dl_ave_red st = chan_sum lb 0 s (k - s)
                \<and> dl_ave_green st = chan_sum lb 1 s (k - s)
                \<and> dl_ave_blue st = chan_sum lb 2 s (k - s)
                \<and> dl_grad_rgb st = (if k - s = 1 then 0 else dl_grad lb (k - 1))
                \<and> (\<forall>j \<in> {s + 2 ..< k}. \<not> dl_closes prm lb s j)"
      unfolding dl_inv_def by blast
    have tail: "length (dl_lines st) < ?cap \<longrightarrow> dl_tail prm lb lo ?n"
    proof
      assume "length (dl_lines st) < ?cap"
      with False have "\<not> k < ?n" by simp
      with "1.prems"(2) have kn: "k = ?n" by simp
      show "dl_tail prm lb lo ?n"
      proof (cases "dl_count st = 0")
        case True
        with body show ?thesis unfolding dl_tail_def kn [symmetric] by simp
      next
        case False
        with body obtain s where "lo \<le> s" "s < k" "\<forall>j \<in> {lo ..< s}. \<not> dl_opens prm lb j"
          "dl_opens prm lb s" "\<forall>j \<in> {s + 2 ..< k}. \<not> dl_closes prm lb s j" by auto
        then show ?thesis unfolding dl_tail_def kn [symmetric]
          by (intro disjI2 bexI [of _ s]) auto
      qed
    qed
    show ?thesis using out ch "1.prems"(5) tail by blast
  qed
qed

lemma dl_inv_init:
  "dl_inv prm lb 0 \<lparr>dl_count = 0, dl_ave_red = 0, dl_ave_green = 0, dl_ave_blue = 0,
              dl_grad_rgb = 0, dl_lines = []\<rparr>"
  unfolding dl_inv_def by (rule exI [of _ "[]"], rule exI [of _ 0]) simp

text \<open>
  C4, the claim as stated: each line carries position = start + width / 2. On the stripe
  line the scan finds one segment; it opens at index 4 (nothing can open before), has
  width 11, and its position is 10, the closing index 15 minus 11 / 2, not 4 + 11 / 2 = 9.
\<close>

theorem detectLines_scan_position:
  "detectLines_scan stripe_params stripe_line = PyValue [(10, 11, 231, 231, 231)]
   \<and> seg_ok stripe_params stripe_line 0 4 11 (10, 11, 231, 231, 231)
   \<and> (10 :: u32) \<noteq> 4 + 11 div 2"
  by code_simp

lemma seg_ok_unique:
  assumes "seg_ok prm lb lo s w t" "seg_ok prm lb lo s' w' t'"
  shows "s = s' \<and> w = w' \<and> t = t'"
proof -
  have s: "s = s'"
  proof (rule ccontr)
    assume "s \<noteq> s'"
    then consider "s < s'" | "s' < s" by linarith
    then show False
    proof cases
      case 1
      then have "s \<in> {lo ..< s'}" using assms(1) by (simp add: seg_ok_def)
      then show False using assms by (simp add: seg_ok_def)
    next
      case 2
      then have "s' \<in> {lo ..< s}" using assms(2) by (simp add: seg_ok_def)
      then show False using assms by (simp add: seg_ok_def)
    qed
  qed
  have w: "w = w'"
  proof (rule ccontr)
    assume "w \<noteq> w'"
    then consider "w < w'" | "w' < w" by linarith
    then show False
    proof cases
      case 1
      then have "s + w \<in> {s' + 2 ..< s' + w'}" using assms(1) s by (simp add: seg_ok_def)
      then show False using assms s by (simp add: seg_ok_def)
    next
      case 2
      then have "s' + w' \<in> {s + 2 ..< s + w}" using assms(2) s by (simp add: seg_ok_def)
      then show False using assms s by (simp add: seg_ok_def)
    qed
  qed
  show ?thesis using assms s w by (simp add: seg_ok_def)
qed

lemma seg_ok_not_tail:
  assumes "seg_ok prm lb lo s w t" "dl_tail prm lb lo (unat (dl_pixelcount prm - 2))"
  shows False
proof -
  let ?n = "unat (dl_pixelcount prm - 2)"
  from assms(1) have a: "lo \<le> s" "\<forall>j \<in> {lo ..< s}. \<not> dl_opens prm lb j" "dl_opens prm lb s"
    "2 \<le> w" "s + w < ?n" "dl_closes prm lb s (s + w)"
    by (simp_all add: seg_ok_def)
  from assms(2) consider "\<forall>j \<in> {lo ..< ?n}. \<not> dl_opens prm lb j"
    | s' where "s' \<in> {lo ..< ?n}" "\<forall>j \<in> {lo ..< s'}. \<not> dl_opens prm lb j" "dl_opens prm lb s'"
        "\<forall>j \<in> {s' + 2 ..< ?n}. \<not> dl_closes prm lb s' j"
    unfolding dl_tail_def by blast
  then show False
  proof cases
    case 1
    moreover have "s \<in> {lo ..< ?n}" using a by simp
    ultimately show False using a(3) by blast
  next
    case 2
    have "s' = s"
    proof (rule ccontr)
      assume "s' \<noteq> s"
      then consider "s' < s" | "s < s'" by linarith
      then show False
      proof cases
        case 1
        then have "s' \<in> {lo ..< s}" using 2(1) by simp
        then show False using a(2) 2(3) by blast
      next
        case 2
        then have "s \<in> {lo ..< s'}" using a(1) by simp
        then show False using \<open>\<forall>j \<in> {lo ..< s'}. \<not> dl_opens prm lb j\<close> a(3) by blast
      qed
    qed
    moreover have "s + w \<in> {s + 2 ..< ?n}" using a by simp
    ultimately show False using 2(4) a(6) by blast
  qed
qed

lemma dl_chain_unique:
  assumes "dl_chain prm lb lo bs ts hi" "dl_chain prm lb lo bs' ts' hi'"
    and "length ts \<le> c" "length ts' \<le> c"
    and "length ts < c \<longrightarrow> dl_tail prm lb hi (unat (dl_pixelcount prm - 2))"
    and "length ts' < c \<longrightarrow> dl_tail prm lb hi' (unat (dl_pixelcount prm - 2))"
  shows "ts = ts'"
  using assms
proof (induction ts arbitrary: lo bs bs' ts' c)
  case Nil
  then have hi: "hi = lo" by (cases bs) simp_all
  show ?case
  proof (cases ts')
    case Nil
    then show ?thesis by simp
  next
    case (Cons t' ts0')
    with Nil.prems(2) obtain s' w' bs0' where "bs' = (s', w') # bs0'" "seg_ok prm lb lo s' w' t'"
      by (cases bs') auto
    moreover have "dl_tail prm lb lo (unat (dl_pixelcount prm - 2))"
      using Nil.prems(4,5) Cons hi by simp
    ultimately show ?thesis using seg_ok_not_tail by blast
  qed
next
  case (Cons t ts0)
  from Cons.prems(1) obtain s w bs0 where bs: "bs = (s, w) # bs0" and sok: "seg_ok prm lb lo s w t"
    and ch: "dl_chain prm lb (s + w + 1) bs0 ts0 hi"
    by (cases bs) auto
  show ?case
  proof (cases ts')
    case Nil
    then have "hi' = lo" using Cons.prems(2) by (cases bs') simp_all
    then have "dl_tail prm lb lo (unat (dl_pixelcount prm - 2))"
      using Cons.prems(3,6) Nil by simp
    then show ?thesis using sok seg_ok_not_tail by blast
  next
    case (Cons t' ts0')
    with Cons.prems(2) obtain s' w' bs0' where bs': "bs' = (s', w') # bs0'"
      and sok': "seg_ok prm lb lo s' w' t'" and ch': "dl_chain prm lb (s' + w' + 1) bs0' ts0' hi'"
      by (cases bs') auto
    from seg_ok_unique [OF sok sok'] have e: "s = s'" "w = w'" "t = t'" by simp_all
    have "ts0 = ts0'"
    proof (rule Cons.IH [OF ch, of bs0' ts0' "c - 1"])
      show "dl_chain prm lb (s + w + 1) bs0' ts0' hi'" using ch' e by simp
      show "length ts0 \<le> c - 1" using Cons.prems(3) by simp
      show "length ts0' \<le> c - 1" using Cons.prems(4) Cons by simp
      show "length ts0 < c - 1 \<longrightarrow> dl_tail prm lb hi (unat (dl_pixelcount prm - 2))"
        using Cons.prems(5) by auto
      show "length ts0' < c - 1 \<longrightarrow> dl_tail prm lb hi' (unat (dl_pixelcount prm - 2))"
        using Cons.prems(6) Cons by auto
    qed
    then show ?thesis using e Cons by simp
  qed
qed

lemma dl_spec_unique: "dl_spec prm lb ts \<Longrightarrow> dl_spec prm lb ts' \<Longrightarrow> ts = ts'"
  unfolding dl_spec_def by (blast intro: dl_chain_unique)

lemma detectLines_scan_spec:
  assumes pc: "2 \<le> unat (dl_pixelcount prm)" and len: "3 * unat (dl_pixelcount prm) \<le> length lb"
    and small: "length lb < 2 ^ 32"
  shows "\<exists>ts. detectLines_scan prm lb = (if ts = [] then PyNone else PyValue ts) \<and> dl_spec prm lb ts"
proof -
  have "(2 :: u32) \<le> dl_pixelcount prm" using pc by (simp add: word_le_nat_alt)
  then have n: "unat (dl_pixelcount prm - 2) = unat (dl_pixelcount prm) - 2"
    by (simp add: unat_sub)
  have rd: "\<forall>j < unat (dl_pixelcount prm - 2). 3 * j + 5 < length lb"
    unfolding n using len by auto
  from dl_loop_inv [OF dl_inv_init _ rd small]
  obtain st' bs hi where l: "dl_loop prm lb 0 \<lparr>dl_count = 0, dl_ave_red = 0, dl_ave_green = 0, dl_ave_blue = 0,
              dl_grad_rgb = 0, dl_lines = []\<rparr> = Some st'"
    and "dl_chain prm lb 0 bs (dl_lines st') hi"
      "length (dl_lines st') \<le> min (unat (dl_numlines prm)) MAXLINES"
      "length (dl_lines st') < min (unat (dl_numlines prm)) MAXLINES
                \<longrightarrow> dl_tail prm lb hi (unat (dl_pixelcount prm - 2))"
    by auto
  then have "dl_spec prm lb (dl_lines st')" unfolding dl_spec_def by blast
  moreover have "detectLines_scan prm lb = (if dl_lines st' = [] then PyNone else PyValue (dl_lines st'))"
    by (simp add: detectLines_scan_def l)
  ultimately show ?thesis by blast
qed

text \<open>
  C4, amended. For a line buffer that holds the scan window (at least two pixels), the
  scan ends without reading outside the buffer. Its loop runs over the indices
  \<open>k < pixelcount - 2\<close>. It returns the lines \<open>ts\<close> (\<open>None\<close> when \<open>ts\<close> is empty) exactly
  when \<open>ts\<close> is what \<open>dl_spec\<close> describes: at most \<open>min numlines 5\<close> lines, in scan order;
  from the index where the scan is idle, the next segment opens at the first index where
  the gradient reaches the threshold, and is emitted at the first index \<open>k\<close>, two or more
  past the start and below \<open>pixelcount - 2\<close>, where the gradient falls below the
  threshold, having reached it at \<open>k - 1\<close>, with the accumulated width \<open>k - start\<close> within
  the bounds; the line carries the position \<open>xmin + k - width / 2\<close> (that is
  \<open>start + width - width / 2\<close>), the width and the channel averages of the accumulated
  pixels; and when fewer lines than the cap are returned, no further segment opens and
  closes before the end of the window.
\<close>

theorem detectLines_scan_amended:
  assumes pc: "2 \<le> unat (dl_pixelcount prm)" and len: "3 * unat (dl_pixelcount prm) \<le> length lb"
    and small: "length lb < 2 ^ 32"
  shows "(detectLines_scan prm lb = (if ts = [] then PyNone else PyValue ts)) = dl_spec prm lb ts"
proof -
  from detectLines_scan_spec [OF pc len small]
  obtain ts0 where r: "detectLines_scan prm lb = (if ts0 = [] then PyNone else PyValue ts0)"
    and sp: "dl_spec prm lb ts0" by blast
  show ?thesis
  proof
    assume "detectLines_scan prm lb = (if ts = [] then PyNone else PyValue ts)"
    with r have "ts = ts0" by (auto split: if_splits)
    then show "dl_spec prm lb ts" using sp by simp
  next
    assume "dl_spec prm lb ts"
    then have "ts = ts0" using sp by (rule dl_spec_unique)
    then show "detectLines_scan prm lb = (if ts = [] then PyNone else PyValue ts)" using r by simp
  qed
qed

theorem detectLines_scan_amended_witness:
  "2 \<le> unat (dl_pixelcount stripe_params)
   \<and> 3 * unat (dl_pixelcount stripe_params) \<le> length stripe_line
   \<and> length stripe_line < 2 ^ 32
   \<and> dl_spec stripe_params stripe_line [(10, 11, 231, 231, 231)]
   \<and> \<not> dl_spec stripe_params stripe_line []
   \<and> \<not> dl_spec stripe_params stripe_line [(9, 11, 231, 231, 231)]"
proof -
  have pc: "2 \<le> unat (dl_pixelcount stripe_params)" by (simp add: stripe_params_def)
  have len: "3 * unat (dl_pixelcount stripe_params) \<le> length stripe_line"
    by (simp add: stripe_params_def stripe_line_def)
  have small: "length stripe_line < 2 ^ 32" by (simp add: stripe_line_def)
  have ev: "detectLines_scan stripe_params stripe_line = PyValue [(10, 11, 231, 231, 231)]"
    by code_simp
  note t = detectLines_scan_amended [OF pc len small]
  have "dl_spec stripe_params stripe_line [(10, 11, 231, 231, 231)]"
    using t [of "[(10, 11, 231, 231, 231)]"] ev by simp
  moreover have "\<not> dl_spec stripe_params stripe_line []"
    using t [of "[]"] ev by simp
  moreover have "\<not> dl_spec stripe_params stripe_line [(9, 11, 231, 231, 231)]"
    using t [of "[(9, 11, 231, 231, 231)]"] ev by simp
  ultimately show ?thesis using pc len small by blast
qed

end
